theory Spec2Isabelle
  imports Main "HOL-Library.Word" "HOL-Library.Sublist"
begin

section \<open>ThreadSafeQueue (thread_safe_queue.hpp)\<close>

text \<open>
  The class holds a \<open>std::queue<T>\<close>, a \<open>size_t\<close> capacity and the shutdown flag. The
  \<open>std::queue\<close> is a list with the oldest item at the head. The capacity is only ever
  compared with the queue's size, never used in arithmetic, so it is a natural number.
  The mutex and the two condition variables are not fields of the model: every method
  holds the mutex for the whole of its access to the fields, so each call is one atomic
  step on the record, and a call whose wait predicate is false is a step that cannot be
  taken yet.
\<close>

record 'a ThreadSafeQueue =
  m_queue :: "'a list"
  m_capacity :: nat
  m_shutdown :: bool

text \<open>The constructor: \<open>capacity_(capacity), shutdown_(false)\<close>, and an empty queue.\<close>

definition new_queue :: "nat \<Rightarrow> 'a ThreadSafeQueue" where
  "new_queue capacity = \<lparr>m_queue = [], m_capacity = capacity, m_shutdown = False\<rparr>"

text \<open>
  Isabelle does not accept a name that ends in an underscore, so a member \<open>x_\<close> of a
  class is the field \<open>m_x\<close> of its record, here and below: \<open>queue_\<close>, \<open>capacity_\<close> and
  \<open>shutdown_\<close> are \<open>m_queue\<close>, \<open>m_capacity\<close> and \<open>m_shutdown\<close>. The method \<open>size\<close> is
  \<open>size_q\<close>.

  A blocking call returns \<open>None\<close> while its wait predicate is false (the caller stays
  suspended in \<open>wait\<close> and the fields are untouched), and \<open>Some (result, queue)\<close> once the
  predicate holds and the rest of the critical section has run.
\<close>

definition push :: "'a ThreadSafeQueue \<Rightarrow> 'a \<Rightarrow> (bool \<times> 'a ThreadSafeQueue) option" where
  "push q item =
     (if \<not> (length (m_queue q) < m_capacity q \<or> m_shutdown q) then None
      else if m_shutdown q then Some (False, q)
      else Some (True, q\<lparr>m_queue := m_queue q @ [item]\<rparr>))"

definition pop :: "'a ThreadSafeQueue \<Rightarrow> ('a option \<times> 'a ThreadSafeQueue) option" where
  "pop q =
     (if \<not> (m_queue q \<noteq> [] \<or> m_shutdown q) then None
      else if m_shutdown q \<and> m_queue q = [] then Some (None, q)
      else Some (Some (hd (m_queue q)), q\<lparr>m_queue := tl (m_queue q)\<rparr>))"

definition shutdown :: "'a ThreadSafeQueue \<Rightarrow> 'a ThreadSafeQueue" where
  "shutdown q = q\<lparr>m_shutdown := True\<rparr>"

definition size_q :: "'a ThreadSafeQueue \<Rightarrow> nat" where
  "size_q q = length (m_queue q)"

subsection \<open>Histories of calls\<close>

text \<open>
  The calls of all threads on one queue, in the order in which they pass through the
  mutex. A history in which some call is not yet able to return at its place has no
  result (\<open>None\<close>): that call would still be waiting there.
\<close>

datatype 'a op = Push 'a | Pop | Shutdown | Size

datatype 'a res = PushR bool | PopR "'a option" | ShutdownR | SizeR nat

fun step :: "'a ThreadSafeQueue \<Rightarrow> 'a op \<Rightarrow> ('a res \<times> 'a ThreadSafeQueue) option" where
  "step q (Push x) = (case push q x of None \<Rightarrow> None | Some (b, q') \<Rightarrow> Some (PushR b, q'))"
| "step q Pop = (case pop q of None \<Rightarrow> None | Some (r, q') \<Rightarrow> Some (PopR r, q'))"
| "step q Shutdown = Some (ShutdownR, shutdown q)"
| "step q Size = Some (SizeR (size_q q), q)"

fun run :: "'a ThreadSafeQueue \<Rightarrow> 'a op list \<Rightarrow> ('a res list \<times> 'a ThreadSafeQueue) option" where
  "run q [] = Some ([], q)"
| "run q (c # cs) =
     (case step q c of
        None \<Rightarrow> None
      | Some (r, q') \<Rightarrow> (case run q' cs of None \<Rightarrow> None | Some (rs, q'') \<Rightarrow> Some (r # rs, q'')))"

text \<open>What a history pushed, and what its pops handed out.\<close>

fun pushed :: "'a op list \<Rightarrow> 'a list" where
  "pushed [] = []"
| "pushed (Push x # cs) = x # pushed cs"
| "pushed (_ # cs) = pushed cs"

fun popped :: "'a res list \<Rightarrow> 'a option list" where
  "popped [] = []"
| "popped (PopR r # rs) = r # popped rs"
| "popped (_ # rs) = popped rs"

fun push_results :: "'a res list \<Rightarrow> bool list" where
  "push_results [] = []"
| "push_results (PushR b # rs) = b # push_results rs"
| "push_results (_ # rs) = push_results rs"

text \<open>The items among the results of pops (a pop may also return \<open>std::nullopt\<close>).\<close>

fun somes :: "'a option list \<Rightarrow> 'a list" where
  "somes [] = []"
| "somes (None # rs) = somes rs"
| "somes (Some x # rs) = x # somes rs"

definition is_pop :: "'a op \<Rightarrow> bool" where
  "is_pop c = (case c of Pop \<Rightarrow> True | _ \<Rightarrow> False)"

definition is_push :: "'a op \<Rightarrow> bool" where
  "is_push c = (case c of Push _ \<Rightarrow> True | _ \<Rightarrow> False)"

definition is_shutdown :: "'a op \<Rightarrow> bool" where
  "is_shutdown c = (case c of Shutdown \<Rightarrow> True | _ \<Rightarrow> False)"

text \<open>
  A history fits a queue of capacity \<open>cap\<close> that holds \<open>k\<close> items when it has no
  \<open>shutdown\<close>, no push arrives while \<open>cap\<close> items are stored and no pop while none is.
  This is a count of the calls alone and does not run the queue.
\<close>

fun fits :: "nat \<Rightarrow> nat \<Rightarrow> 'a op list \<Rightarrow> bool" where
  "fits cap k [] = True"
| "fits cap k (Push x # cs) = (k < cap \<and> fits cap (Suc k) cs)"
| "fits cap k (Pop # cs) = (0 < k \<and> fits cap (k - 1) cs)"
| "fits cap k (Shutdown # cs) = False"
| "fits cap k (Size # cs) = fits cap k cs"

section \<open>What the threads print\<close>

text \<open>One constructor for each line that the program writes to \<open>std::cout\<close>.\<close>

datatype line =
    PhysicsTick "64 word" nat
  | PhysicsStopped "64 word"
  | NetConnected string
  | NetProgress "64 word" nat
  | NetStreamClosed string
  | NetSimMode
  | NetSimDone "64 word"
  | NetSentTotal "64 word"

section \<open>The producer: physics_thread (main.cpp)\<close>

text \<open>
  Of the generator only the tick counter (\<open>uint64_t tick_\<close>) is modelled; the packet that
  \<open>generate\<close> builds (floating point readings, a wall-clock time stamp) is the opaque
  value \<open>payload tick\<close>.
\<close>

record SensorGenerator =
  m_tick :: "64 word"

definition generate :: "(64 word \<Rightarrow> 'a) \<Rightarrow> SensorGenerator \<Rightarrow> 'a \<times> SensorGenerator" where
  "generate payload s = (payload (m_tick s), s\<lparr>m_tick := m_tick s + 1\<rparr>)"

text \<open>
  Durations and time points are integer counts of nanoseconds, the unit of
  \<open>steady_clock::duration\<close>, into which \<open>frame - elapsed\<close> converts the 16667 microseconds
  of \<open>frame\<close>. The clock is monotonic, so the signed 64-bit subtraction stays far from its
  range and is written on \<open>int\<close>.
\<close>

definition frame :: int where
  "frame = 16667 * 1000"

text \<open>
  \<open>std::this_thread::sleep_for\<close> is the library's: it blocks the caller for the duration it
  is given and returns at once when that duration is zero or negative. \<open>sleep_for d\<close> is
  the time the caller is blocked for.
\<close>

definition sleep_for :: "int \<Rightarrow> int" where
  "sleep_for d = (if d \<le> 0 then 0 else d)"

text \<open>
  One turn of the \<open>while (running)\<close> loop, from the queue as it is when the push passes the
  mutex. \<open>start\<close> and \<open>now\<close> are the two readings of the steady clock. The turn leaves the
  loop (\<open>Break\<close>, after which the thread prints its last line), is suspended in \<open>push\<close>
  (\<open>Suspended\<close>), or reaches \<open>sleep_for\<close> with the argument it computed (\<open>Sleep\<close>).
  The queue size printed every sixtieth tick is read from the queue as the push left it.
\<close>

datatype 's turn = Break 's | Suspended | Sleep int 's

definition physics_iteration ::
  "(64 word \<Rightarrow> 'a) \<Rightarrow> bool \<Rightarrow> int \<Rightarrow> int \<Rightarrow> 'a ThreadSafeQueue \<times> SensorGenerator \<times> line list \<Rightarrow>
   ('a ThreadSafeQueue \<times> SensorGenerator \<times> line list) turn" where
  "physics_iteration payload running start now s =
     (case s of (q, sensor, out) \<Rightarrow>
        if \<not> running then Break (q, sensor, out @ [PhysicsStopped (m_tick sensor)])
        else
          (case generate payload sensor of (pkt, sensor') \<Rightarrow>
             (case push q pkt of
                None \<Rightarrow> Suspended
              | Some (ok, q') \<Rightarrow>
                  if \<not> ok then Break (q', sensor', out @ [PhysicsStopped (m_tick sensor')])
                  else
                    let out' = (if unat (m_tick sensor') mod 60 = 0
                                then out @ [PhysicsTick (m_tick sensor') (size_q q')] else out);
                        elapsed = now - start
                    in Sleep (frame - elapsed) (q', sensor', out'))))"

section \<open>The consumer: NetworkClient (network_client.hpp) and network_thread (main.cpp)\<close>

text \<open>
  The channel and the stub are gRPC objects; the model keeps the address they were made
  for. \<open>sent_\<close> is a \<open>uint64_t\<close>.
\<close>

record NetworkClient =
  m_address :: string
  m_channel :: "string option"
  m_stub :: "string option"
  m_connected :: bool
  m_sent :: "64 word"

definition new_client :: "string \<Rightarrow> NetworkClient" where
  "new_client address =
     \<lparr>m_address = address, m_channel = None, m_stub = None, m_connected = False, m_sent = 0\<rparr>"

text \<open>\<open>connect\<close> returns its result, the client and the line it prints.\<close>

definition connect :: "NetworkClient \<Rightarrow> bool \<times> NetworkClient \<times> line list" where
  "connect c =
     (True,
      c\<lparr>m_channel := Some (m_address c), m_stub := Some (m_address c), m_connected := True\<rparr>,
      [NetConnected (m_address c)])"

definition log_progress :: "NetworkClient \<Rightarrow> nat \<Rightarrow> NetworkClient \<times> line list" where
  "log_progress c queue_size =
     (let c' = c\<lparr>m_sent := m_sent c + 1\<rparr>
      in (c', if unat (m_sent c') mod 60 = 0 then [NetProgress (m_sent c') queue_size] else []))"

text \<open>
  The gRPC stream is outside the repository. The model records the calls made on it:
  whether \<open>StreamTelemetry\<close> has opened it, the packets handed to \<open>Write\<close>, in order,
  and whether \<open>WritesDone\<close> and \<open>Finish\<close> were called. What the transport answers is a parameter: \<open>write_ok k\<close> is the result of the
  call of \<open>Write\<close> that follows \<open>k\<close> earlier ones, \<open>finish_message\<close> the error message of
  the status that \<open>Finish\<close> returns.
\<close>

record 'a grpc_stream =
  opened :: bool
  written :: "'a list"
  writes_done :: bool
  finished :: bool

record grpc_env =
  write_ok :: "nat \<Rightarrow> bool"
  finish_message :: string

text \<open>
  \<open>network_thread\<close> runs \<open>simulate\<close> or \<open>stream\<close>, whose loops call \<open>pop\<close> and \<open>size\<close> on
  the queue that the producer and \<open>main\<close> use at the same time. The thread is therefore a
  transition system. A transition runs the thread from one access to the queue to the
  next, and \<open>at\<close> says where the thread stands: before its first statement, before the
  \<open>pop\<close> of the loop of \<open>simulate\<close> or of \<open>stream\<close>, before the \<open>size\<close> of either loop, or
  after its last statement. The thread starts with the client that
  \<open>NetworkClient client(server)\<close> constructs. \<open>Write\<close> does not touch the queue and is part
  of the transition of the \<open>pop\<close> before it. \<open>taken\<close> is a history variable, not a variable of the program:
  the packets this thread has received from \<open>pop\<close>.
\<close>

datatype pc = Entry | SimPop | SimSize | StreamPop | StreamSize | Exited

record 'a net_thread =
  at :: pc
  client :: NetworkClient
  rpc :: "'a grpc_stream"
  out :: "line list"
  taken :: "'a list"

definition net_start :: "string \<Rightarrow> 'a net_thread" where
  "net_start server =
     \<lparr>at = Entry, client = new_client server,
      rpc = \<lparr>opened = False, written = [], writes_done = False, finished = False\<rparr>,
      out = [], taken = []\<rparr>"

text \<open>
  Entering \<open>simulate\<close>; entering \<open>stream\<close>, which turns to \<open>simulate\<close> when not connected
  and opens the gRPC stream otherwise.
\<close>

definition simulate_begin :: "'a net_thread \<Rightarrow> 'a net_thread" where
  "simulate_begin n = n\<lparr>out := out n @ [NetSimMode], at := SimPop\<rparr>"

definition stream_begin :: "'a net_thread \<Rightarrow> 'a net_thread" where
  "stream_begin n =
     (if \<not> m_connected (client n) then simulate_begin n
      else n\<lparr>rpc := (rpc n)\<lparr>opened := True\<rparr>, at := StreamPop\<rparr>)"

text \<open>After the loop of \<open>stream\<close>: \<open>WritesDone\<close>, \<open>Finish\<close>, and the status is printed.\<close>

definition stream_end :: "grpc_env \<Rightarrow> 'a net_thread \<Rightarrow> 'a net_thread" where
  "stream_end env n =
     n\<lparr>rpc := (rpc n)\<lparr>writes_done := True, finished := True\<rparr>,
       out := out n @ [NetStreamClosed (finish_message env)]\<rparr>"

text \<open>After the loop of \<open>simulate\<close>.\<close>

definition simulate_end :: "'a net_thread \<Rightarrow> 'a net_thread" where
  "simulate_end n = n\<lparr>out := out n @ [NetSimDone (m_sent (client n))]\<rparr>"

text \<open>The last statement of \<open>network_thread\<close>.\<close>

definition thread_end :: "'a net_thread \<Rightarrow> 'a net_thread" where
  "thread_end n = n\<lparr>out := out n @ [NetSentTotal (m_sent (client n))], at := Exited\<rparr>"

text \<open>The body of either loop after its \<open>pop\<close>: \<open>log_progress(queue.size())\<close>.\<close>

definition progress :: "'a ThreadSafeQueue \<Rightarrow> pc \<Rightarrow> 'a net_thread \<Rightarrow> 'a net_thread" where
  "progress q back n =
     (case log_progress (client n) (size_q q) of
        (c', ls) \<Rightarrow> n\<lparr>client := c', out := out n @ ls, at := back\<rparr>)"

text \<open>
  The first statements of \<open>network_thread\<close>, up to the loop. \<open>conn\<close> is the operation
  called as \<open>client.connect()\<close>; the program's own is \<open>connect\<close> (see \<open>network_thread\<close>
  below).
\<close>

definition network_thread_entry ::
  "(NetworkClient \<Rightarrow> bool \<times> NetworkClient \<times> line list) \<Rightarrow> bool \<Rightarrow> 'a net_thread \<Rightarrow> 'a net_thread" where
  "network_thread_entry conn simulate n =
     (if simulate then simulate_begin n
      else
        (case conn (client n) of
           (ok, c', ls) \<Rightarrow>
             let n' = n\<lparr>client := c', out := out n @ ls\<rparr>
             in if ok then stream_begin n' else simulate_begin n'))"

text \<open>
  One transition of the thread. \<open>None\<close>: the thread is suspended in \<open>pop\<close>, or it has
  returned and has no transition left.
\<close>

definition net_step ::
  "(NetworkClient \<Rightarrow> bool \<times> NetworkClient \<times> line list) \<Rightarrow> grpc_env \<Rightarrow> bool \<Rightarrow>
   'a ThreadSafeQueue \<times> 'a net_thread \<Rightarrow> ('a ThreadSafeQueue \<times> 'a net_thread) option" where
  "net_step conn env simulate s =
     (case s of (q, n) \<Rightarrow>
        (case at n of
           Entry \<Rightarrow> Some (q, network_thread_entry conn simulate n)
         | SimPop \<Rightarrow>
             (case pop q of
                None \<Rightarrow> None
              | Some (None, q') \<Rightarrow> Some (q', thread_end (simulate_end n))
              | Some (Some x, q') \<Rightarrow> Some (q', n\<lparr>taken := taken n @ [x], at := SimSize\<rparr>))
         | SimSize \<Rightarrow> Some (q, progress q SimPop n)
         | StreamPop \<Rightarrow>
             (case pop q of
                None \<Rightarrow> None
              | Some (None, q') \<Rightarrow> Some (q', thread_end (stream_end env n))
              | Some (Some x, q') \<Rightarrow>
                  let ok = write_ok env (length (written (rpc n)));
                      n' = n\<lparr>taken := taken n @ [x],
                             rpc := (rpc n)\<lparr>written := written (rpc n) @ [x]\<rparr>\<rparr>
                  in if \<not> ok then Some (q', thread_end (stream_end env n'))
                     else Some (q', n'\<lparr>at := StreamSize\<rparr>))
         | StreamSize \<Rightarrow> Some (q, progress q StreamPop n)
         | Exited \<Rightarrow> None))"

text \<open>
  The queue with the network thread and the other threads: an event is a call that
  another thread (the producer, \<open>main\<close>) completes on the queue, or a transition of the
  network thread. A sequence of events has a result when each event can happen at its
  place.
\<close>

datatype 'a event = Other "'a op" | Net

definition sys_step ::
  "(NetworkClient \<Rightarrow> bool \<times> NetworkClient \<times> line list) \<Rightarrow> grpc_env \<Rightarrow> bool \<Rightarrow>
   'a ThreadSafeQueue \<times> 'a net_thread \<Rightarrow> 'a event \<Rightarrow> ('a ThreadSafeQueue \<times> 'a net_thread) option" where
  "sys_step conn env simulate s e =
     (case e of
        Other c \<Rightarrow> (case step (fst s) c of None \<Rightarrow> None | Some (r, q') \<Rightarrow> Some (q', snd s))
      | Net \<Rightarrow> net_step conn env simulate s)"

fun sys_run ::
  "(NetworkClient \<Rightarrow> bool \<times> NetworkClient \<times> line list) \<Rightarrow> grpc_env \<Rightarrow> bool \<Rightarrow>
   'a ThreadSafeQueue \<times> 'a net_thread \<Rightarrow> 'a event list \<Rightarrow> ('a ThreadSafeQueue \<times> 'a net_thread) option" where
  "sys_run conn env simulate s [] = Some s"
| "sys_run conn env simulate s (e # es) =
     (case sys_step conn env simulate s e of
        None \<Rightarrow> None
      | Some s' \<Rightarrow> sys_run conn env simulate s' es)"

text \<open>\<open>network_thread\<close> as the program has it: the operation called is \<open>connect\<close>.\<close>

definition network_thread ::
  "grpc_env \<Rightarrow> bool \<Rightarrow> 'a ThreadSafeQueue \<times> 'a net_thread \<Rightarrow> 'a event list \<Rightarrow>
   ('a ThreadSafeQueue \<times> 'a net_thread) option" where
  "network_thread env simulate s es = sys_run connect env simulate s es"

subsection \<open>Stand-ins for the transport\<close>

text \<open>
  A transport whose first \<open>Write\<close> succeeds and whose later ones fail.
\<close>

definition flaky :: grpc_env where
  "flaky = \<lparr>write_ok = (\<lambda>k. k < 1), finish_message = ''unavailable''\<rparr>"


subsection \<open>Invariants of the network thread\<close>

text \<open>
  What holds of the thread at each place while it runs the loop of \<open>stream\<close>:
  every packet received was handed to \<open>Write\<close> once, and all calls of \<open>Write\<close> but
  the last have succeeded.
\<close>

definition all_ok :: "grpc_env \<Rightarrow> nat \<Rightarrow> bool" where
  "all_ok env k = list_all (write_ok env) [0..<k]"

definition live_inv :: "grpc_env \<Rightarrow> string \<Rightarrow> 'a net_thread \<Rightarrow> bool" where
  "live_inv env server n =
     (taken n = written (rpc n) \<and>
      (case at n of
         Entry \<Rightarrow> client n = new_client server \<and> written (rpc n) = []
       | StreamPop \<Rightarrow> opened (rpc n) \<and> all_ok env (length (written (rpc n))) \<and>
           m_sent (client n) = of_nat (length (written (rpc n)))
       | StreamSize \<Rightarrow> opened (rpc n) \<and> all_ok env (length (written (rpc n))) \<and>
           m_sent (client n) + 1 = of_nat (length (written (rpc n)))
       | Exited \<Rightarrow> opened (rpc n) \<and> writes_done (rpc n) \<and> finished (rpc n) \<and>
           suffix [NetStreamClosed (finish_message env), NetSentTotal (m_sent (client n))]
             (out n) \<and>
           (if all_ok env (length (written (rpc n)))
            then m_sent (client n) = of_nat (length (written (rpc n)))
            else written (rpc n) \<noteq> [] \<and> all_ok env (length (written (rpc n)) - 1) \<and>
                 m_sent (client n) + 1 = of_nat (length (written (rpc n))))
       | _ \<Rightarrow> False))"

section \<open>Properties of the queue\<close>

lemma step_capacity: "step q c = Some (r, q') \<Longrightarrow> m_capacity q' = m_capacity q"
  by (cases c) (auto simp: push_def pop_def shutdown_def split: if_splits)

lemma step_closed: "step q c = Some (r, q') \<Longrightarrow> m_shutdown q \<Longrightarrow> m_shutdown q'"
  by (cases c) (auto simp: push_def pop_def shutdown_def split: if_splits)

lemma step_bounded:
  "step q c = Some (r, q') \<Longrightarrow> length (m_queue q) \<le> m_capacity q \<Longrightarrow>
   length (m_queue q') \<le> m_capacity q'"
  by (cases c) (auto simp: push_def pop_def shutdown_def split: if_splits)

lemma run_append:
  "run q (cs @ ds) =
     (case run q cs of None \<Rightarrow> None
      | Some (rs, q') \<Rightarrow> (case run q' ds of None \<Rightarrow> None | Some (ss, q'') \<Rightarrow> Some (rs @ ss, q'')))"
  by (induction cs arbitrary: q) (auto split: option.splits)

lemma run_bounded:
  "run q cs = Some (rs, q') \<Longrightarrow> length (m_queue q) \<le> m_capacity q \<Longrightarrow>
   length (m_queue q') \<le> m_capacity q' \<and> m_capacity q' = m_capacity q"
proof (induction cs arbitrary: q rs)
  case Nil
  then show ?case by simp
next
  case (Cons c cs)
  from Cons.prems(1) obtain r q1 rs1 where
    s: "step q c = Some (r, q1)" and t: "run q1 cs = Some (rs1, q')"
    by (auto split: option.splits)
  from step_bounded [OF s Cons.prems(2)] step_capacity [OF s] Cons.IH [OF t]
  show ?case by simp
qed

subsection \<open>Order of delivery\<close>

lemma step_open:
  "step q c = Some (r, q') \<Longrightarrow> \<not> m_shutdown q \<Longrightarrow> \<not> is_shutdown c \<Longrightarrow>
   \<not> m_shutdown q' \<and> popped [r] = map Some (somes (popped [r])) \<and>
   somes (popped [r]) @ m_queue q' = m_queue q @ pushed [c] \<and>
   push_results [r] = map (\<lambda>_. True) (pushed [c])"
  by (cases c) (auto simp: push_def pop_def is_shutdown_def split: if_splits)

lemma popped_Cons: "popped (r # rs) = popped [r] @ popped rs"
  by (cases r) auto

lemma pushed_Cons: "pushed (c # cs) = pushed [c] @ pushed cs"
  by (cases c) auto

lemma push_results_Cons: "push_results (r # rs) = push_results [r] @ push_results rs"
  by (cases r) auto

lemma somes_append: "somes (xs @ ys) = somes xs @ somes ys"
  by (induction xs rule: somes.induct) auto

lemma run_open:
  "run q cs = Some (rs, q') \<Longrightarrow> \<not> m_shutdown q \<Longrightarrow> list_all (\<lambda>c. \<not> is_shutdown c) cs \<Longrightarrow>
   \<not> m_shutdown q' \<and> popped rs = map Some (somes (popped rs)) \<and>
   somes (popped rs) @ m_queue q' = m_queue q @ pushed cs \<and>
   push_results rs = map (\<lambda>_. True) (pushed cs)"
proof (induction cs arbitrary: q rs)
  case Nil
  then show ?case by simp
next
  case (Cons c cs)
  from Cons.prems(1) obtain r q1 rs1 where
    s: "step q c = Some (r, q1)" and t: "run q1 cs = Some (rs1, q')" and rs: "rs = r # rs1"
    by (auto split: option.splits)
  from Cons.prems have nc: "\<not> is_shutdown c" and rest: "list_all (\<lambda>c. \<not> is_shutdown c) cs"
    by simp_all
  note a = step_open [OF s Cons.prems(2) nc]
  from a have o1: "\<not> m_shutdown q1" by simp
  note b = Cons.IH [OF t o1 rest]
  have "somes (popped rs) @ m_queue q' = somes (popped [r]) @ (somes (popped rs1) @ m_queue q')"
    unfolding rs by (subst popped_Cons) (simp add: somes_append)
  also have "\<dots> = somes (popped [r]) @ m_queue q1 @ pushed cs" using b by simp
  also have "\<dots> = m_queue q @ pushed [c] @ pushed cs" using a by simp
  finally have fifo: "somes (popped rs) @ m_queue q' = m_queue q @ pushed (c # cs)"
    by (subst pushed_Cons) simp
  have pp: "popped rs = map Some (somes (popped rs))"
  proof -
    have "popped rs = popped [r] @ popped rs1" unfolding rs by (rule popped_Cons)
    also have "\<dots> = map Some (somes (popped [r])) @ map Some (somes (popped rs1))"
      using a b by simp
    also have "\<dots> = map Some (somes (popped [r] @ popped rs1))" by (simp add: somes_append)
    also have "\<dots> = map Some (somes (popped rs))" unfolding rs by (subst (2) popped_Cons) simp
    finally show ?thesis .
  qed
  have pr: "push_results rs = map (\<lambda>_. True) (pushed (c # cs))"
  proof -
    have "push_results rs = push_results [r] @ push_results rs1"
      unfolding rs by (rule push_results_Cons)
    also have "\<dots> = map (\<lambda>_. True) (pushed [c]) @ map (\<lambda>_. True) (pushed cs)" using a b by simp
    also have "\<dots> = map (\<lambda>_. True) (pushed (c # cs))" by (subst (2) pushed_Cons) simp
    finally show ?thesis .
  qed
  from b fifo pp pr show ?case by simp
qed

lemma step_popped_length: "step q c = Some (r, q') \<Longrightarrow> length (popped [r]) = length (filter is_pop [c])"
  by (cases c) (auto simp: is_pop_def split: option.splits)

lemma run_popped_length: "run q cs = Some (rs, q') \<Longrightarrow> length (popped rs) = length (filter is_pop cs)"
proof (induction cs arbitrary: q rs)
  case Nil
  then show ?case by simp
next
  case (Cons c cs)
  from Cons.prems(1) obtain r q1 rs1 where
    s: "step q c = Some (r, q1)" and t: "run q1 cs = Some (rs1, q')" and rs: "rs = r # rs1"
    by (auto split: option.splits)
  have "length (popped rs) = length (popped [r]) + length (popped rs1)"
    unfolding rs by (subst popped_Cons) simp
  with step_popped_length [OF s] Cons.IH [OF t] show ?case by simp
qed

lemma pushed_length: "length (pushed cs) = length (filter is_push cs)"
  by (induction cs rule: pushed.induct) (auto simp: is_push_def)

lemma fits_open: "fits cap k cs \<Longrightarrow> list_all (\<lambda>c. \<not> is_shutdown c) cs"
  by (induction cap k cs rule: fits.induct) (auto simp: is_shutdown_def)

lemma fits_step:
  "\<not> m_shutdown q \<Longrightarrow> fits (m_capacity q) (length (m_queue q)) (c # cs) \<Longrightarrow>
   \<exists>r q'. step q c = Some (r, q') \<and> \<not> m_shutdown q' \<and> m_capacity q' = m_capacity q \<and>
          fits (m_capacity q') (length (m_queue q')) cs"
  by (cases c) (auto simp: push_def pop_def)

lemma fits_returns:
  "\<not> m_shutdown q \<Longrightarrow> fits (m_capacity q) (length (m_queue q)) cs \<Longrightarrow>
   \<exists>rs q'. run q cs = Some (rs, q')"
proof (induction cs arbitrary: q)
  case Nil
  then show ?case by simp
next
  case (Cons c cs)
  from fits_step [OF Cons.prems] obtain r q1 where
    s: "step q c = Some (r, q1)" and o: "\<not> m_shutdown q1"
    and f: "fits (m_capacity q1) (length (m_queue q1)) cs"
    by blast
  from Cons.IH [OF o f] obtain rs q' where "run q1 cs = Some (rs, q')" by blast
  with s show ?case by simp
qed

lemma returns_fits:
  "\<not> m_shutdown q \<Longrightarrow> list_all (\<lambda>c. \<not> is_shutdown c) cs \<Longrightarrow> run q cs = Some (rs, q') \<Longrightarrow>
   fits (m_capacity q) (length (m_queue q)) cs"
proof (induction cs arbitrary: q rs)
  case Nil
  then show ?case by simp
next
  case (Cons c cs)
  from Cons.prems(3) obtain r q1 rs1 where
    s: "step q c = Some (r, q1)" and t: "run q1 cs = Some (rs1, q')"
    by (auto split: option.splits)
  from Cons.prems(2) have nc: "\<not> is_shutdown c" and rest: "list_all (\<lambda>c. \<not> is_shutdown c) cs"
    by simp_all
  from step_open [OF s Cons.prems(1) nc] have o: "\<not> m_shutdown q1" by simp
  note ih = Cons.IH [OF o rest t]
  from s nc Cons.prems(1) ih show ?case
    by (cases c) (auto simp: push_def pop_def is_shutdown_def split: if_splits)
qed

lemma push_all:
  "\<not> m_shutdown q \<Longrightarrow> length (m_queue q) + length xs \<le> m_capacity q \<Longrightarrow>
   run q (map Push xs) = Some (map (\<lambda>x. PushR True) xs, q\<lparr>m_queue := m_queue q @ xs\<rparr>)"
proof (induction xs arbitrary: q)
  case Nil
  then show ?case by simp
next
  case (Cons x xs)
  let ?q1 = "q\<lparr>m_queue := m_queue q @ [x]\<rparr>"
  have p: "push q x = Some (True, ?q1)" using Cons.prems by (simp add: push_def)
  have "run ?q1 (map Push xs) = Some (map (\<lambda>x. PushR True) xs, ?q1\<lparr>m_queue := m_queue ?q1 @ xs\<rparr>)"
    using Cons.prems by (intro Cons.IH) simp_all
  with p show ?case by simp
qed

lemma pop_all:
  "m_queue q = xs \<Longrightarrow>
   run q (replicate (length xs) Pop) = Some (map (\<lambda>x. PopR (Some x)) xs, q\<lparr>m_queue := []\<rparr>)"
proof (induction xs arbitrary: q)
  case Nil
  then show ?case by simp
next
  case (Cons x xs)
  have p: "pop q = Some (Some x, q\<lparr>m_queue := xs\<rparr>)"
    using Cons.prems by (simp add: pop_def)
  have "run (q\<lparr>m_queue := xs\<rparr>) (replicate (length xs) Pop)
        = Some (map (\<lambda>x. PopR (Some x)) xs, q\<lparr>m_queue := xs\<rparr>\<lparr>m_queue := []\<rparr>)"
    by (intro Cons.IH) simp
  with p show ?case by simp
qed

text \<open>
  C1. On a new queue, N items pushed and then popped N times come back as pushed: when N
  is at most the capacity, the N pushes followed by N pops all return, every push
  returns \<open>true\<close>, and the pops return the N items in the order of the pushes. The same
  holds of every interleaving: any history without \<open>shutdown\<close> that fits the capacity,
  with as many pops as pushes, returns, its pops return exactly the pushed items in
  push order, and it leaves the queue as new. The histories that fit are exactly those
  in which no call is left waiting.
\<close>

theorem fifo_order:
  "(fits capacity 0 (cs :: 'a op list) \<and>
    length (filter is_pop cs) = length (filter is_push cs) \<longrightarrow>
      (\<exists>rs. run (new_queue capacity) cs = Some (rs, new_queue capacity) \<and>
            popped rs = map Some (pushed cs) \<and>
            push_results rs = replicate (length (pushed cs)) True)) \<and>
   (length (xs :: 'a list) \<le> capacity \<longrightarrow>
      run (new_queue capacity) (map Push xs @ replicate (length xs) Pop)
        = Some (map (\<lambda>x. PushR True) xs @ map (\<lambda>x. PopR (Some x)) xs, new_queue capacity)) \<and>
   (list_all (\<lambda>c. \<not> is_shutdown c) cs \<longrightarrow>
      (run (new_queue capacity :: 'a ThreadSafeQueue) cs \<noteq> None) = fits capacity 0 cs)"
proof (intro conjI impI)
  assume a: "fits capacity 0 cs \<and> length (filter is_pop cs) = length (filter is_push cs)"
  have o: "\<not> m_shutdown (new_queue capacity :: 'a ThreadSafeQueue)" by (simp add: new_queue_def)
  have "fits (m_capacity (new_queue capacity :: 'a ThreadSafeQueue))
          (length (m_queue (new_queue capacity :: 'a ThreadSafeQueue))) cs"
    using a by (simp add: new_queue_def)
  from fits_returns [OF o this] obtain rs q' where r: "run (new_queue capacity) cs = Some (rs, q')"
    by blast
  have no: "list_all (\<lambda>c. \<not> is_shutdown c) cs" using a fits_open by blast
  note b = run_open [OF r o no]
  from b have eq: "somes (popped rs) @ m_queue q' = pushed cs" by (simp add: new_queue_def)
  have "length (somes (popped rs)) = length (popped rs)"
    using b by (metis length_map)
  also have "\<dots> = length (pushed cs)"
    using run_popped_length [OF r] a by (simp add: pushed_length)
  finally have len: "length (somes (popped rs)) = length (pushed cs)" .
  from eq len have e: "m_queue q' = []"
    by (metis append_eq_conv_conj length_0_conv length_drop diff_self_eq_0)
  have "length (m_queue (new_queue capacity :: 'a ThreadSafeQueue))
          \<le> m_capacity (new_queue capacity :: 'a ThreadSafeQueue)"
    by (simp add: new_queue_def)
  from run_bounded [OF r this] have "m_capacity q' = capacity" by (simp add: new_queue_def)
  with e b have "q' = new_queue capacity" by (simp add: new_queue_def)
  with r e eq b
  show "\<exists>rs. run (new_queue capacity) cs = Some (rs, new_queue capacity) \<and>
            popped rs = map Some (pushed cs) \<and>
            push_results rs = replicate (length (pushed cs)) True"
    by (auto simp: map_replicate_const)
next
  assume l: "length xs \<le> capacity"
  let ?q0 = "new_queue capacity :: 'a ThreadSafeQueue"
  let ?q1 = "?q0\<lparr>m_queue := m_queue ?q0 @ xs\<rparr>"
  have p: "run ?q0 (map Push xs) = Some (map (\<lambda>x. PushR True) xs, ?q1)"
    using l by (intro push_all) (simp_all add: new_queue_def)
  have m: "m_queue ?q1 = xs" by (simp add: new_queue_def)
  have d: "run ?q1 (replicate (length xs) Pop) = Some (map (\<lambda>x. PopR (Some x)) xs, ?q1\<lparr>m_queue := []\<rparr>)"
    by (rule pop_all [OF m])
  have "?q1\<lparr>m_queue := []\<rparr> = ?q0" by (simp add: new_queue_def)
  with p d show "run ?q0 (map Push xs @ replicate (length xs) Pop)
        = Some (map (\<lambda>x. PushR True) xs @ map (\<lambda>x. PopR (Some x)) xs, ?q0)"
    by (simp add: run_append)
next
  assume no: "list_all (\<lambda>c. \<not> is_shutdown c) cs"
  have o: "\<not> m_shutdown (new_queue capacity :: 'a ThreadSafeQueue)" by (simp add: new_queue_def)
  show "(run (new_queue capacity :: 'a ThreadSafeQueue) cs \<noteq> None) = fits capacity 0 cs"
  proof
    assume "run (new_queue capacity :: 'a ThreadSafeQueue) cs \<noteq> None"
    then obtain rs q' where "run (new_queue capacity :: 'a ThreadSafeQueue) cs = Some (rs, q')" by auto
    from returns_fits [OF o no this] show "fits capacity 0 cs" by (simp add: new_queue_def)
  next
    assume "fits capacity 0 cs"
    then have "fits (m_capacity (new_queue capacity :: 'a ThreadSafeQueue))
          (length (m_queue (new_queue capacity :: 'a ThreadSafeQueue))) cs"
      by (simp add: new_queue_def)
    from fits_returns [OF o this] show "run (new_queue capacity :: 'a ThreadSafeQueue) cs \<noteq> None" by auto
  qed
qed

theorem fifo_order_witness:
  "fits 2 0 [Push (1::nat), Push 2, Pop, Push 3, Pop, Pop] \<and>
   (\<exists>rs. run (new_queue 2) [Push (1::nat), Push 2, Pop, Push 3, Pop, Pop] = Some (rs, new_queue 2) \<and>
         popped rs = map Some (pushed [Push (1::nat), Push 2, Pop, Push 3, Pop, Pop]) \<and>
         push_results rs
           = replicate (length (pushed [Push (1::nat), Push 2, Pop, Push 3, Pop, Pop])) True) \<and>
   run (new_queue 1000) (map Push [1::nat, 2, 3] @ replicate (length [1::nat, 2, 3]) Pop)
     = Some (map (\<lambda>x. PushR True) [1::nat, 2, 3] @ map (\<lambda>x. PopR (Some x)) [1::nat, 2, 3],
             new_queue 1000)"
proof -
  have f: "fits 2 0 [Push (1::nat), Push 2, Pop, Push 3, Pop, Pop]" by simp
  have n: "length (filter is_pop [Push (1::nat), Push 2, Pop, Push 3, Pop, Pop])
         = length (filter is_push [Push (1::nat), Push 2, Pop, Push 3, Pop, Pop])"
    by (simp add: is_pop_def is_push_def)
  have l: "length [1::nat, 2, 3] \<le> 1000" by simp
  note t = fifo_order [where capacity = 2 and cs = "[Push (1::nat), Push 2, Pop, Push 3, Pop, Pop]"
      and xs = "[]"]
  from t f n have a: "\<exists>rs. run (new_queue 2) [Push (1::nat), Push 2, Pop, Push 3, Pop, Pop] = Some (rs, new_queue 2) \<and>
         popped rs = map Some (pushed [Push (1::nat), Push 2, Pop, Push 3, Pop, Pop]) \<and>
         push_results rs
           = replicate (length (pushed [Push (1::nat), Push 2, Pop, Push 3, Pop, Pop])) True"
    by blast
  note u = fifo_order [where capacity = 1000 and xs = "[1::nat, 2, 3]" and cs = "[]"]
  from u l have b: "run (new_queue 1000) (map Push [1::nat, 2, 3] @ replicate (length [1::nat, 2, 3]) Pop)
     = Some (map (\<lambda>x. PushR True) [1::nat, 2, 3] @ map (\<lambda>x. PopR (Some x)) [1::nat, 2, 3],
             new_queue 1000)"
    by blast
  from f a b show ?thesis by (intro conjI)
qed

subsection \<open>Draining a closed queue\<close>

lemma drain_closed:
  "m_shutdown q \<Longrightarrow> m_queue q = xs \<Longrightarrow>
   run q (replicate (length xs) Pop) = Some (map (\<lambda>x. PopR (Some x)) xs, q\<lparr>m_queue := []\<rparr>)"
proof (induction xs arbitrary: q)
  case Nil
  then show ?case by simp
next
  case (Cons x xs)
  have p: "pop q = Some (Some x, q\<lparr>m_queue := xs\<rparr>)"
    using Cons.prems by (simp add: pop_def)
  have "run (q\<lparr>m_queue := xs\<rparr>) (replicate (length xs) Pop)
        = Some (map (\<lambda>x. PopR (Some x)) xs, q\<lparr>m_queue := xs\<rparr>\<lparr>m_queue := []\<rparr>)"
    using Cons.prems by (intro Cons.IH) simp_all
  with p show ?case by simp
qed

lemma closed_step:
  "m_shutdown q \<Longrightarrow>
   \<exists>r q'. step q c = Some (r, q') \<and> m_shutdown q' \<and>
     popped [r] = take (length (filter is_pop [c])) (map Some (m_queue q) @ [None]) \<and>
     m_queue q' = drop (length (filter is_pop [c])) (m_queue q)"
  by (cases c; cases "m_queue q")
     (auto simp: push_def pop_def shutdown_def is_pop_def)

lemma closed_run:
  "m_shutdown q \<Longrightarrow>
   \<exists>rs q'. run q cs = Some (rs, q') \<and>
     popped rs = take (length (filter is_pop cs)) (map Some (m_queue q))
                 @ replicate (length (filter is_pop cs) - length (m_queue q)) None"
proof (induction cs arbitrary: q)
  case Nil
  then show ?case by simp
next
  case (Cons c cs)
  from closed_step [OF Cons.prems, of c] obtain r q1 where
    s: "step q c = Some (r, q1)" and c1: "m_shutdown q1"
    and p: "popped [r] = take (length (filter is_pop [c])) (map Some (m_queue q) @ [None])"
    and m: "m_queue q1 = drop (length (filter is_pop [c])) (m_queue q)"
    by blast
  from Cons.IH [OF c1] obtain rs q' where
    t: "run q1 cs = Some (rs, q')"
    and pp: "popped rs = take (length (filter is_pop cs)) (map Some (m_queue q1))
                 @ replicate (length (filter is_pop cs) - length (m_queue q1)) None"
    by blast
  have r: "run q (c # cs) = Some (r # rs, q')" using s t by simp
  have "popped (r # rs) = popped [r] @ popped rs" by (rule popped_Cons)
  also have "\<dots> = take (length (filter is_pop (c # cs))) (map Some (m_queue q))
                 @ replicate (length (filter is_pop (c # cs)) - length (m_queue q)) None"
  proof (cases "is_pop c")
    case False
    with p pp m show ?thesis by simp
  next
    case True
    show ?thesis
    proof (cases "m_queue q")
      case Nil
      with True p pp m show ?thesis by (simp add: replicate_Suc [symmetric] del: replicate_Suc)
    next
      case (Cons x xs)
      with True p pp m show ?thesis by simp
    qed
  qed
  finally show ?case using r by blast
qed

text \<open>
  C2. When \<open>shutdown\<close> is called on a queue that holds K items, the next K pops return
  those items in the order of the queue, oldest first, and the pop after them returns
  \<open>std::nullopt\<close>. The same holds when calls of other threads come between the pops:
  in every history of calls after the shutdown each call returns, and the pops return
  the stored items in order and \<open>std::nullopt\<close> from then on. In no state does a pop
  return \<open>std::nullopt\<close> while the queue holds an item.
\<close>

theorem drain_before_end:
  "run (shutdown q) (replicate (length (m_queue q)) Pop @ [Pop])
     = Some (map (\<lambda>x. PopR (Some x)) (m_queue q) @ [PopR None], shutdown q\<lparr>m_queue := []\<rparr>)
   \<and> (\<exists>rs q1. run (shutdown q) cs = Some (rs, q1) \<and>
        popped rs = take (length (filter is_pop cs)) (map Some (m_queue q))
                    @ replicate (length (filter is_pop cs) - length (m_queue q)) None)
   \<and> (pop q' = Some (None, q'') \<longrightarrow> m_queue q' = [])"
proof -
  have c: "m_shutdown (shutdown q)" and m: "m_queue (shutdown q) = m_queue q"
    by (simp_all add: shutdown_def)
  have e: "run (shutdown q\<lparr>m_queue := []\<rparr>) [Pop] = Some ([PopR None], shutdown q\<lparr>m_queue := []\<rparr>)"
    by (simp add: pop_def shutdown_def)
  have "run (shutdown q) (replicate (length (m_queue q)) Pop @ [Pop])
     = Some (map (\<lambda>x. PopR (Some x)) (m_queue q) @ [PopR None], shutdown q\<lparr>m_queue := []\<rparr>)"
    by (simp only: run_append drain_closed [OF c m] e option.case prod.case)
  moreover have "pop q' = Some (None, q'') \<longrightarrow> m_queue q' = []"
    by (auto simp: pop_def split: if_splits)
  moreover have "\<exists>rs q1. run (shutdown q) cs = Some (rs, q1) \<and>
        popped rs = take (length (filter is_pop cs)) (map Some (m_queue q))
                    @ replicate (length (filter is_pop cs) - length (m_queue q)) None"
    using closed_run [OF c, of cs] by (simp only: m)
  ultimately show ?thesis by (intro conjI)
qed

theorem drain_before_end_witness:
  "run (shutdown \<lparr>m_queue = [7, 8 :: nat], m_capacity = 4, m_shutdown = False\<rparr>) [Pop, Pop, Pop]
     = Some ([PopR (Some 7), PopR (Some 8), PopR None],
             \<lparr>m_queue = [], m_capacity = 4, m_shutdown = True\<rparr>)
   \<and> pop \<lparr>m_queue = [] :: nat list, m_capacity = 4, m_shutdown = True\<rparr>
     = Some (None, \<lparr>m_queue = [], m_capacity = 4, m_shutdown = True\<rparr>)"
  using drain_before_end [where q = "\<lparr>m_queue = [7, 8 :: nat], m_capacity = 4, m_shutdown = False\<rparr>"
      and cs = "[]"
      and q' = "\<lparr>m_queue = [] :: nat list, m_capacity = 4, m_shutdown = True\<rparr>"
      and q'' = "\<lparr>m_queue = [] :: nat list, m_capacity = 4, m_shutdown = True\<rparr>"]
  by (simp add: shutdown_def pop_def)

subsection \<open>Pushing on a closed queue\<close>

text \<open>
  C3. On a queue that has been shut down, \<open>push\<close> returns \<open>false\<close> and leaves the queue
  as it is. A push that is waiting for space (its wait predicate is false) returns
  \<open>false\<close> once \<open>shutdown\<close> has been called, and the item is not in the queue.
\<close>

theorem push_after_shutdown:
  "(m_shutdown q \<longrightarrow> push q item = Some (False, q)) \<and>
   (push q item = None \<longrightarrow> push (shutdown q) item = Some (False, shutdown q))"
  by (simp add: push_def shutdown_def)

theorem push_after_shutdown_witness:
  "push \<lparr>m_queue = [CHR ''A''], m_capacity = 1, m_shutdown = False\<rparr> (CHR ''B'') = None \<and>
   push (shutdown \<lparr>m_queue = [CHR ''A''], m_capacity = 1, m_shutdown = False\<rparr>) (CHR ''B'')
     = Some (False, \<lparr>m_queue = [CHR ''A''], m_capacity = 1, m_shutdown = True\<rparr>)"
  using push_after_shutdown [of "\<lparr>m_queue = [CHR ''A''], m_capacity = 1, m_shutdown = False\<rparr>" "CHR ''B''"]
  by (simp add: push_def shutdown_def)

subsection \<open>The capacity bound\<close>

text \<open>
  C4. After every history of calls on a new queue of capacity C, the queue holds at most
  C items and its capacity is still C. When it holds exactly C, a push does not append:
  it waits while the queue is open, and returns \<open>false\<close> when the queue is closed.
\<close>

theorem capacity_bound:
  assumes "run (new_queue capacity) cs = Some (rs, q)"
  shows "length (m_queue q) \<le> capacity \<and> m_capacity q = capacity \<and>
         (length (m_queue q) = capacity \<longrightarrow>
            push q item = (if m_shutdown q then Some (False, q) else None))"
proof -
  have "length (m_queue (new_queue capacity :: 'a ThreadSafeQueue)) \<le> m_capacity (new_queue capacity :: 'a ThreadSafeQueue)"
    by (simp add: new_queue_def)
  from run_bounded [OF assms this] have "length (m_queue q) \<le> capacity" "m_capacity q = capacity"
    by (simp_all add: new_queue_def)
  then show ?thesis by (simp add: push_def)
qed

theorem capacity_bound_witness:
  "run (new_queue 2) [Push (1::nat), Size, Push 2]
     = Some ([PushR True, SizeR 1, PushR True], \<lparr>m_queue = [1, 2], m_capacity = 2, m_shutdown = False\<rparr>)
   \<and> push \<lparr>m_queue = [1, 2 :: nat], m_capacity = 2, m_shutdown = False\<rparr> 3 = None"
proof -
  have r: "run (new_queue 2) [Push (1::nat), Size, Push 2]
     = Some ([PushR True, SizeR 1, PushR True], \<lparr>m_queue = [1, 2], m_capacity = 2, m_shutdown = False\<rparr>)"
    by (simp add: new_queue_def push_def size_q_def)
  show ?thesis using r capacity_bound [OF r, of 3] by simp
qed

subsection \<open>Shutdown\<close>

lemma run_closed: "run q cs = Some (rs, q') \<Longrightarrow> m_shutdown q \<Longrightarrow> m_shutdown q'"
proof (induction cs arbitrary: q rs)
  case Nil
  then show ?case by simp
next
  case (Cons c cs)
  from Cons.prems(1) obtain r q1 rs1 where
    s: "step q c = Some (r, q1)" and t: "run q1 cs = Some (rs1, q')"
    by (auto split: option.splits)
  from step_closed [OF s Cons.prems(2)] Cons.IH [OF t] show ?case by simp
qed

text \<open>
  C5. Calling \<open>shutdown\<close> twice gives the state that calling it once gives, and the
  flag it sets stays set through every later history of pushes, pops, size queries and
  shutdowns.
\<close>

theorem shutdown_idempotent:
  "shutdown (shutdown q) = shutdown q \<and> m_shutdown (shutdown q) \<and>
   (m_shutdown q' \<and> run q' cs = Some (rs, q'') \<longrightarrow> m_shutdown q'')"
  using run_closed [of q' cs rs q''] by (simp add: shutdown_def)

theorem shutdown_idempotent_witness:
  "run (shutdown (new_queue 1)) [Push (5::nat), Pop, Size, Shutdown]
     = Some ([PushR False, PopR None, SizeR 0, ShutdownR], \<lparr>m_queue = [], m_capacity = 1, m_shutdown = True\<rparr>)
   \<and> shutdown (shutdown (new_queue 1 :: nat ThreadSafeQueue)) = shutdown (new_queue 1)"
proof -
  have r: "run (shutdown (new_queue 1)) [Push (5::nat), Pop, Size, Shutdown]
     = Some ([PushR False, PopR None, SizeR 0, ShutdownR], \<lparr>m_queue = [], m_capacity = 1, m_shutdown = True\<rparr>)"
    by (simp add: new_queue_def push_def pop_def size_q_def shutdown_def)
  show ?thesis
    using r shutdown_idempotent [of "new_queue 1 :: nat ThreadSafeQueue" "shutdown (new_queue 1)"
        "[Push (5::nat), Pop, Size, Shutdown]" "[PushR False, PopR None, SizeR 0, ShutdownR]"
        "\<lparr>m_queue = [], m_capacity = 1, m_shutdown = True\<rparr>"]
    by simp
qed

text \<open>
  C10. \<open>shutdown\<close> leaves the stored items, their order and the capacity as they
  were.
\<close>

theorem shutdown_frame:
  "m_queue (shutdown q) = m_queue q \<and> m_capacity (shutdown q) = m_capacity q"
  by (simp add: shutdown_def)

section \<open>Properties of the producer\<close>

lemma generate_first: "generate unat \<lparr>m_tick = 0\<rparr> = (0, \<lparr>m_tick = 1\<rparr>)"
  by (simp add: generate_def)

lemma push_first:
  "push (new_queue 1000) (0::nat)
     = Some (True, \<lparr>m_queue = [0], m_capacity = 1000, m_shutdown = False\<rparr>)"
  by (simp add: push_def new_queue_def)

lemma overrun_turn:
  "physics_iteration unat True 0 20000000 (new_queue 1000, \<lparr>m_tick = 0\<rparr>, [])
     = Sleep (- 3333000) (\<lparr>m_queue = [0], m_capacity = 1000, m_shutdown = False\<rparr>, \<lparr>m_tick = 1\<rparr>, [])"
  unfolding physics_iteration_def by (simp add: generate_first push_first frame_def)

text \<open>
  C6, as stated, fails: a turn of the loop that took 20 ms, longer than the frame of
  16.667 ms, computes the duration -3.333 ms and passes it to \<open>sleep_for\<close>. The loop
  has no clamp of its own.
\<close>

theorem sleep_not_clamped:
  "physics_iteration unat True 0 20000000 (new_queue 1000, \<lparr>m_tick = 0\<rparr>, [])
     = Sleep (- 3333000) (\<lparr>m_queue = [0], m_capacity = 1000, m_shutdown = False\<rparr>, \<lparr>m_tick = 1\<rparr>, [])
   \<and> (- 3333000 :: int) < 0 \<and> frame < 20000000 - 0"
  using overrun_turn by (simp add: frame_def)

text \<open>
  C6, amended. In every turn of the loop that reaches \<open>sleep_for\<close>, the duration
  computed and passed is the frame minus the elapsed time, unclamped, and the time the
  thread is then blocked for is the larger of zero and that difference, since
  \<open>sleep_for\<close> returns at once on a duration that is not positive.
\<close>

theorem sleep_request:
  assumes "physics_iteration payload running start now s = Sleep d s'"
  shows "d = frame - (now - start) \<and> sleep_for d = max 0 (frame - (now - start))"
  using assms
  by (auto simp: physics_iteration_def sleep_for_def Let_def split: prod.splits option.splits if_splits)

theorem sleep_request_witness:
  "physics_iteration unat True 0 20000000 (new_queue 1000, \<lparr>m_tick = 0\<rparr>, [])
     = Sleep (- 3333000) (\<lparr>m_queue = [0], m_capacity = 1000, m_shutdown = False\<rparr>, \<lparr>m_tick = 1\<rparr>, [])
   \<and> sleep_for (- 3333000) = 0"
proof -
  have "sleep_for (- 3333000) = max 0 (frame - (20000000 - 0))"
    using sleep_request [OF overrun_turn] by (rule conjunct2)
  also have "\<dots> = 0" by (simp add: frame_def)
  finally show ?thesis using overrun_turn by (intro conjI)
qed

section \<open>Properties of the consumer\<close>

text \<open>
  C9. \<open>connect\<close> returns \<open>true\<close> for every client, whatever its address: it stores a
  channel and a stub for the address, sets \<open>connected_\<close> and prints one line. Nothing it
  does depends on the transport.
\<close>

theorem connect_always_true:
  "fst (connect c) = True \<and>
   snd (connect c) =
     (c\<lparr>m_channel := Some (m_address c), m_stub := Some (m_address c), m_connected := True\<rparr>,
      [NetConnected (m_address c)])"
  by (simp add: connect_def)

subsection \<open>The run of stream\<close>

lemma all_ok_Suc: "all_ok env (Suc k) = (all_ok env k \<and> write_ok env k)"
  by (simp add: all_ok_def)

lemma all_ok_0: "all_ok env 0"
  by (simp add: all_ok_def)

lemma live_inv_start: "live_inv env server (net_start server)"
  by (simp add: live_inv_def net_start_def)

lemma live_inv_net:
  assumes "live_inv env server n" and "net_step connect env False (q, n) = Some (q', n')"
  shows "live_inv env server n'"
proof (cases "at n")
  case Entry
  with assms show ?thesis
    by (auto simp: net_step_def live_inv_def network_thread_entry_def connect_def
        stream_begin_def new_client_def all_ok_0)
next
  case SimPop
  with assms(1) show ?thesis by (simp add: live_inv_def)
next
  case SimSize
  with assms(1) show ?thesis by (simp add: live_inv_def)
next
  case StreamPop
  show ?thesis
  proof (cases "pop q")
    case None
    with StreamPop assms(2) show ?thesis by (simp add: net_step_def)
  next
    case (Some a)
    obtain r q1 where a: "a = (r, q1)" by (cases a)
    show ?thesis
    proof (cases r)
      case None
      with Some a StreamPop assms show ?thesis
        by (auto simp: net_step_def live_inv_def thread_end_def stream_end_def suffix_def)
    next
      case (Some x)
      show ?thesis
      proof (cases "write_ok env (length (written (rpc n)))")
        case True
        with Some \<open>pop q = Some a\<close> a StreamPop assms show ?thesis
          by (auto simp: net_step_def live_inv_def all_ok_Suc Let_def)
      next
        case False
        with Some \<open>pop q = Some a\<close> a StreamPop assms show ?thesis
          by (auto simp: net_step_def live_inv_def all_ok_Suc Let_def thread_end_def stream_end_def
              suffix_def)
      qed
    qed
  qed
next
  case StreamSize
  with assms show ?thesis
    by (auto simp: net_step_def live_inv_def progress_def log_progress_def Let_def)
next
  case Exited
  with assms(2) show ?thesis by (simp add: net_step_def)
qed

lemma live_inv_run:
  "live_inv env server (snd s) \<Longrightarrow> sys_run connect env False s es = Some s' \<Longrightarrow>
   live_inv env server (snd s')"
proof (induction es arbitrary: s)
  case Nil
  then show ?case by simp
next
  case (Cons e es)
  from Cons.prems(2) obtain s1 where
    a: "sys_step connect env False s e = Some s1" and b: "sys_run connect env False s1 es = Some s'"
    by (auto split: option.splits)
  have "live_inv env server (snd s1)"
  proof (cases e)
    case (Other c)
    with a have "snd s1 = snd s" by (auto simp: sys_step_def split: option.splits)
    with Cons.prems(1) show ?thesis by simp
  next
    case Net
    with a have "net_step connect env False (fst s, snd s) = Some (fst s1, snd s1)"
      by (simp add: sys_step_def)
    from live_inv_net [OF Cons.prems(1) this] show ?thesis .
  qed
  from Cons.IH [OF this b] show ?case .
qed

lemma all_ok_failed: "k < m \<Longrightarrow> \<not> write_ok env k \<Longrightarrow> \<not> all_ok env m"
  by (auto simp: all_ok_def list_all_iff)

lemma all_ok_last: "all_ok env (m - 1) \<Longrightarrow> k < m \<Longrightarrow> \<not> write_ok env k \<Longrightarrow> m = Suc k"
  by (cases m) (auto simp: all_ok_def list_all_iff not_less less_Suc_eq)

lemma word_pred: "(w :: 64 word) + 1 = of_nat (Suc k) \<Longrightarrow> w = of_nat k"
  by simp

text \<open>
  C8. Live mode, with the program's own \<open>connect\<close>. If in any reachable state some call
  of \<open>Write\<close> has failed, then that call was the last one made (no retry, no later
  write), the thread has returned and has no transition left, \<open>WritesDone\<close> and
  \<open>Finish\<close> have been called, the last lines printed are the status that \<open>Finish\<close>
  returned and the count of packets sent, and that count leaves out the packet whose
  write failed. The step at which a write fails takes the packet off the queue and ends
  the thread, so the packet is neither written again nor put back.
\<close>

theorem write_failure_stops:
  assumes "network_thread env False (q0, net_start server) es = Some (q, n)"
    and "k < length (written (rpc n))" and "\<not> write_ok env k"
  shows "at n = Exited \<and> length (written (rpc n)) = Suc k \<and> taken n = written (rpc n) \<and>
         writes_done (rpc n) \<and> finished (rpc n) \<and> m_sent (client n) = of_nat k \<and>
         suffix [NetStreamClosed (finish_message env), NetSentTotal (of_nat k)] (out n) \<and>
         net_step connect env False (q, n) = None \<and>
         (at n1 = StreamPop \<and> pop q1 = Some (Some x, q2) \<and>
          \<not> write_ok env (length (written (rpc n1))) \<longrightarrow>
            (\<exists>n2. net_step connect env False (q1, n1) = Some (q2, n2) \<and> at n2 = Exited \<and>
                  m_queue q2 = tl (m_queue q1) \<and> m_sent (client n2) = m_sent (client n1) \<and>
                  written (rpc n2) = written (rpc n1) @ [x] \<and>
                  writes_done (rpc n2) \<and> finished (rpc n2)))"
proof -
  have "live_inv env server (snd (q0, net_start server :: 'a net_thread))"
    by (simp add: live_inv_start)
  from live_inv_run [OF this] assms(1) have i: "live_inv env server n"
    by (fastforce simp: network_thread_def)
  from all_ok_failed [OF assms(2,3)] have bad: "\<not> all_ok env (length (written (rpc n)))" .
  from assms(2) have ne: "written (rpc n) \<noteq> []" by auto
  have e: "at n = Exited"
    using i bad ne by (cases "at n") (simp_all add: live_inv_def)
  from i e bad have ok1: "all_ok env (length (written (rpc n)) - 1)"
    and s: "m_sent (client n) + 1 = of_nat (length (written (rpc n)))"
    and wd: "writes_done (rpc n)" "finished (rpc n)" "taken n = written (rpc n)"
    and o: "suffix [NetStreamClosed (finish_message env), NetSentTotal (m_sent (client n))] (out n)"
    by (simp_all add: live_inv_def)
  from all_ok_last [OF ok1 assms(2,3)] have len: "length (written (rpc n)) = Suc k" .
  from s len have sent: "m_sent (client n) = of_nat k" by (simp only: word_pred)
  have stop: "net_step connect env False (q, n) = None" using e by (simp add: net_step_def)
  have one: "at n1 = StreamPop \<and> pop q1 = Some (Some x, q2) \<and>
          \<not> write_ok env (length (written (rpc n1))) \<longrightarrow>
            (\<exists>n2. net_step connect env False (q1, n1) = Some (q2, n2) \<and> at n2 = Exited \<and>
                  m_queue q2 = tl (m_queue q1) \<and> m_sent (client n2) = m_sent (client n1) \<and>
                  written (rpc n2) = written (rpc n1) @ [x] \<and>
                  writes_done (rpc n2) \<and> finished (rpc n2))"
    by (auto simp: net_step_def pop_def thread_end_def stream_end_def split: if_splits)
  from e len wd sent o stop one show ?thesis by simp
qed

lemma failing_run:
  "network_thread flaky False (new_queue 2, net_start ''localhost:50051'')
     [Net, Other (Push (10::nat)), Net, Other (Push 11), Net, Net, Other (Push 12)]
   = Some (\<lparr>m_queue = [12], m_capacity = 2, m_shutdown = False\<rparr>,
           \<lparr>at = Exited,
            client = \<lparr>m_address = ''localhost:50051'', m_channel = Some ''localhost:50051'',
                      m_stub = Some ''localhost:50051'', m_connected = True, m_sent = 1\<rparr>,
            rpc = \<lparr>opened = True, written = [10, 11], writes_done = True, finished = True\<rparr>,
            out = [NetConnected ''localhost:50051'', NetStreamClosed ''unavailable'', NetSentTotal 1],
            taken = [10, 11]\<rparr>)"
  by (simp add: network_thread_def sys_step_def net_step_def network_thread_entry_def connect_def
      stream_begin_def stream_end_def thread_end_def progress_def log_progress_def flaky_def
      net_start_def new_client_def new_queue_def push_def pop_def size_q_def)

theorem write_failure_stops_witness:
  "network_thread flaky False (new_queue 2, net_start ''localhost:50051'')
     [Net, Other (Push (10::nat)), Net, Other (Push 11), Net, Net, Other (Push 12)]
   = Some (\<lparr>m_queue = [12], m_capacity = 2, m_shutdown = False\<rparr>,
           \<lparr>at = Exited,
            client = \<lparr>m_address = ''localhost:50051'', m_channel = Some ''localhost:50051'',
                      m_stub = Some ''localhost:50051'', m_connected = True, m_sent = 1\<rparr>,
            rpc = \<lparr>opened = True, written = [10, 11], writes_done = True, finished = True\<rparr>,
            out = [NetConnected ''localhost:50051'', NetStreamClosed ''unavailable'', NetSentTotal 1],
            taken = [10, 11]\<rparr>) \<and>
   \<not> write_ok flaky 1 \<and>
   pop \<lparr>m_queue = [11 :: nat], m_capacity = 2, m_shutdown = False\<rparr>
     = Some (Some 11, \<lparr>m_queue = [], m_capacity = 2, m_shutdown = False\<rparr>) \<and>
   (\<exists>n2. net_step connect flaky False
           (\<lparr>m_queue = [11 :: nat], m_capacity = 2, m_shutdown = False\<rparr>,
            \<lparr>at = StreamPop, client = new_client ''localhost:50051'',
             rpc = \<lparr>opened = True, written = [10], writes_done = False, finished = False\<rparr>,
             out = [], taken = [10]\<rparr>)
         = Some (\<lparr>m_queue = [], m_capacity = 2, m_shutdown = False\<rparr>, n2) \<and>
         at n2 = Exited \<and> written (rpc n2) = [10, 11])"
proof -
  have w: "\<not> write_ok flaky 1" by (simp add: flaky_def)
  have p: "pop \<lparr>m_queue = [11 :: nat], m_capacity = 2, m_shutdown = False\<rparr>
     = Some (Some 11, \<lparr>m_queue = [], m_capacity = 2, m_shutdown = False\<rparr>)"
    by (simp add: pop_def)
  note t = write_failure_stops [OF failing_run, of 1
      "\<lparr>at = StreamPop, client = new_client ''localhost:50051'',
             rpc = \<lparr>opened = True, written = [10], writes_done = False, finished = False\<rparr>,
             out = [], taken = [10]\<rparr>"
      "\<lparr>m_queue = [11 :: nat], m_capacity = 2, m_shutdown = False\<rparr>" 11
      "\<lparr>m_queue = [], m_capacity = 2, m_shutdown = False\<rparr>"]
  from t w p have "\<exists>n2. net_step connect flaky False
           (\<lparr>m_queue = [11 :: nat], m_capacity = 2, m_shutdown = False\<rparr>,
            \<lparr>at = StreamPop, client = new_client ''localhost:50051'',
             rpc = \<lparr>opened = True, written = [10], writes_done = False, finished = False\<rparr>,
             out = [], taken = [10]\<rparr>)
         = Some (\<lparr>m_queue = [], m_capacity = 2, m_shutdown = False\<rparr>, n2) \<and>
         at n2 = Exited \<and> written (rpc n2) = [10, 11]"
    by auto
  with failing_run w p show ?thesis by (intro conjI)
qed

subsection \<open>Live mode with a sink that cannot be reached\<close>

text \<open>
  In Live mode the program never runs \<open>simulate\<close>, whatever the transport does: its
  \<open>connect\<close> has succeeded, and every packet received is handed to \<open>Write\<close>.
\<close>

lemma live_never_simulates:
  assumes "network_thread env False (q0, net_start server) es = Some (q, n)"
  shows "at n \<noteq> SimPop \<and> at n \<noteq> SimSize \<and> taken n = written (rpc n)"
proof -
  have "live_inv env server (snd (q0, net_start server :: 'a net_thread))"
    by (simp add: live_inv_start)
  from live_inv_run [OF this] assms have "live_inv env server n"
    by (fastforce simp: network_thread_def)
  then show ?thesis by (cases "at n") (simp_all add: live_inv_def)
qed


end
